theory Spec2Isabelle
  imports Main "HOL-Library.Sublist"
begin

section \<open>Configuration (main.py, lines 16-18)\<close>

definition INTERVAL :: nat where
  "INTERVAL = 300"

definition MAX_RETRIES :: nat where
  "MAX_RETRIES = 3"

definition INITIAL_RETRY_DELAY :: nat where
  "INITIAL_RETRY_DELAY = 2"

section \<open>Strings\<close>

text \<open>
  A Python \<open>str\<close> is modelled as a \<open>string\<close> with one \<open>char\<close> per code point, so
  \<open>length\<close> and \<open>take\<close> count what \<open>len\<close> and slicing count. \<open>isspace\<close> lists the
  code points below 256 that \<open>str.strip()\<close> removes.
\<close>

definition isspace :: "char \<Rightarrow> bool" where
  "isspace c = (of_char c \<in> set [9, 10, 11, 12, 13, 28, 29, 30, 31, 32, 133, 160 :: nat])"

definition strip :: "string \<Rightarrow> string" where
  "strip s = rev (dropWhile isspace (rev (dropWhile isspace s)))"

section \<open>The worker and its environment\<close>

text \<open>
  \<open>requests.post\<close> either returns a response (status code, the rendering \<open>str(resp.json())\<close>
  when the body decodes, and \<open>resp.text\<close>) or raises an exception with a message.
\<close>

datatype post_result =
    Response int "string option" string
  | Raised string

text \<open>The four status texts of \<open>PingWorker.run\<close> (lines 64, 68, 75, 87), by their arguments.\<close>

datatype status_msg =
    MsgSuccess int string
  | MsgNon2xx int string
  | MsgError nat string
  | MsgAllFailed

text \<open>
  What the worker does that is visible from outside, in order: the answers of
  \<open>_stop_event.is_set()\<close>, the calls of \<open>requests.post\<close> with the attempt number and
  their outcome, the one-second waits of the backoff loop (line 83) and of the countdown
  loop (line 96), and the three signals.
\<close>

datatype event =
    IsSet bool
  | Post nat post_result
  | BackoffWait
  | IntervalWait
  | Status status_msg
  | Countdown nat
  | Finished

text \<open>
  The stop event is only ever set (\<open>PingWorker.stop\<close>), never cleared, so the answers of
  \<open>is_set()\<close> over one run are a number of \<open>False\<close> followed by \<open>True\<close> for ever:
  \<open>stop_at = Some k\<close> says that the check with index \<open>k\<close> (counted from 0) is the first
  to answer \<open>True\<close>, \<open>None\<close> that the worker is never stopped. \<open>post i\<close> is the outcome
  of the \<open>i\<close>-th call of \<open>requests.post\<close>.
\<close>

record env =
  stop_at :: "nat option"
  post :: "nat \<Rightarrow> post_result"

record wstate =
  checks :: nat
  posts :: nat
  trace :: "event list"

definition init_state :: wstate where
  "init_state = \<lparr>checks = 0, posts = 0, trace = []\<rparr>"

definition emit :: "event \<Rightarrow> wstate \<Rightarrow> wstate" where
  "emit ev s = s\<lparr>trace := trace s @ [ev]\<rparr>"

definition is_set :: "env \<Rightarrow> wstate \<Rightarrow> bool \<times> wstate" where
  "is_set e s =
     (let b = (case stop_at e of None \<Rightarrow> False | Some k \<Rightarrow> k \<le> checks s)
      in (b, emit (IsSet b) (s\<lparr>checks := checks s + 1\<rparr>)))"

definition requests_post :: "env \<Rightarrow> nat \<Rightarrow> wstate \<Rightarrow> post_result \<times> wstate" where
  "requests_post e attempt s =
     (let r = post e (posts s)
      in (r, emit (Post attempt r) (s\<lparr>posts := posts s + 1\<rparr>)))"

section \<open>PingWorker.run (main.py, lines 42-100)\<close>

text \<open>Line 62.\<close>

definition display_body :: "string \<Rightarrow> string" where
  "display_body body_str =
     (if length body_str > 300 then take 300 body_str @ ''...'' else body_str)"

text \<open>Lines 56-70: the status text for a response.\<close>

definition response_status :: "int \<Rightarrow> string option \<Rightarrow> string \<Rightarrow> status_msg" where
  "response_status code js txt =
     (let body_str = (case js of Some body \<Rightarrow> body | None \<Rightarrow> strip txt)
      in if 200 \<le> code \<and> code < 300
         then MsgSuccess code (display_body body_str)
         else MsgNon2xx code (display_body body_str))"

text \<open>Lines 77-79.\<close>

definition backoff_delay :: "nat \<Rightarrow> nat" where
  "backoff_delay attempt =
     (let delay = INITIAL_RETRY_DELAY * 2 ^ (attempt - 1)
      in if delay > 30 then 30 else delay)"

text \<open>Lines 81-84.\<close>

function backoff_loop :: "env \<Rightarrow> nat \<Rightarrow> nat \<Rightarrow> wstate \<Rightarrow> wstate" where
  "backoff_loop e waited delay s =
     (if waited < delay then
        (case is_set e s of (stopped, s1) \<Rightarrow>
           if stopped then s1
           else backoff_loop e (waited + 1) delay (emit BackoffWait s1))
      else s)"
  by pat_completeness auto
termination
  by (relation "measure (\<lambda>(e, waited, delay, s). delay - waited)") auto

declare backoff_loop.simps [simp del]

text \<open>
  Lines 47-84: the \<open>for\<close> loop over the attempt numbers still to come; the result is the
  flag \<open>success\<close> and the state after the loop.
\<close>

fun send_with_retries :: "env \<Rightarrow> nat list \<Rightarrow> wstate \<Rightarrow> bool \<times> wstate" where
  "send_with_retries e [] s = (False, s)"
| "send_with_retries e (attempt # rest) s =
     (case is_set e s of (stopped, s1) \<Rightarrow>
        if stopped then (False, s1)
        else (case requests_post e attempt s1 of (r, s2) \<Rightarrow>
          (case r of
             Response code js txt \<Rightarrow> (True, emit (Status (response_status code js txt)) s2)
           | Raised m \<Rightarrow>
               send_with_retries e rest
                 (backoff_loop e 0 (backoff_delay attempt)
                    (emit (Status (MsgError attempt (take 200 m))) s2)))))"

declare send_with_retries.simps(2) [simp del]

text \<open>Lines 91-97.\<close>

function countdown :: "env \<Rightarrow> nat \<Rightarrow> wstate \<Rightarrow> wstate" where
  "countdown e remaining s =
     (if remaining > 0 then
        (case is_set e s of (stopped, s1) \<Rightarrow>
           if stopped then s1
           else countdown e (remaining - 1) (emit IntervalWait (emit (Countdown remaining) s1)))
      else s)"
  by pat_completeness auto
termination
  by (relation "measure (\<lambda>(e, remaining, s). remaining)") auto

declare countdown.simps [simp del]

text \<open>Lines 45-97: the body of the outer loop.\<close>

definition cycle :: "env \<Rightarrow> wstate \<Rightarrow> wstate" where
  "cycle e s =
     (case send_with_retries e [1..<MAX_RETRIES + 1] s of (success, s1) \<Rightarrow>
        countdown e INTERVAL (if \<not> success then emit (Status MsgAllFailed) s1 else s1))"

text \<open>Line 44: the outer loop, which need not end; \<open>None\<close> is a run that never leaves it.\<close>

partial_function (option) run_loop :: "env \<Rightarrow> wstate \<Rightarrow> wstate option" where
  "run_loop e s =
     (case is_set e s of (stopped, s1) \<Rightarrow>
        if stopped then Some s1 else run_loop e (cycle e s1))"

declare run_loop.simps [code]

text \<open>Lines 42-100, from the worker state \<open>s\<close>; a fresh worker starts in \<open>init_state\<close>.\<close>

definition run :: "env \<Rightarrow> wstate \<Rightarrow> wstate option" where
  "run e s = (case run_loop e s of None \<Rightarrow> None | Some s' \<Rightarrow> Some (emit Finished s'))"

section \<open>MainWindow (main.py, lines 106-209)\<close>

text \<open>The texts shown in the status label, and the timer label as minutes and seconds.\<close>

datatype label =
    LblReady
  | LblNoIdentifier
  | LblAlreadyRunning
  | LblRunning
  | LblStopping
  | LblStopped
  | LblStatus status_msg

record pingworker =
  worker_identifier :: string
  stop_event :: bool

record mainwindow =
  identifier_edit :: string
  identifier_enabled :: bool
  timer_label :: "nat \<times> nat"
  status_label :: label
  start_btn :: bool
  stop_btn :: bool
  worker :: "pingworker option"

text \<open>Lines 122-160: the window as \<open>__init__\<close> leaves it.\<close>

definition init_window :: mainwindow where
  "init_window =
     \<lparr>identifier_edit = [], identifier_enabled = True, timer_label = (5, 0),
      status_label = LblReady, start_btn = True, stop_btn = False, worker = None\<rparr>"

text \<open>
  Lines 162-181. The first component of the result is the worker thread that the call
  constructs and starts (\<open>self.worker.start()\<close>), if it does.
\<close>

definition on_start :: "mainwindow \<Rightarrow> pingworker option \<times> mainwindow" where
  "on_start w =
     (let ident = strip (identifier_edit w)
      in if ident = [] then (None, w\<lparr>status_label := LblNoIdentifier\<rparr>)
         else if worker w \<noteq> None then (None, w\<lparr>status_label := LblAlreadyRunning\<rparr>)
         else
           (let pw = \<lparr>worker_identifier = ident, stop_event = False\<rparr>
            in (Some pw,
                w\<lparr>worker := Some pw, start_btn := False, stop_btn := True,
                  identifier_enabled := False, status_label := LblRunning\<rparr>)))"

text \<open>Lines 183-188.\<close>

definition on_stop :: "mainwindow \<Rightarrow> mainwindow" where
  "on_stop w =
     (case worker w of
        None \<Rightarrow> w
      | Some pw \<Rightarrow>
          w\<lparr>worker := Some (pw\<lparr>stop_event := True\<rparr>), status_label := LblStopping,
            stop_btn := False\<rparr>)"

text \<open>Lines 190-199.\<close>

definition on_status :: "status_msg \<Rightarrow> mainwindow \<Rightarrow> mainwindow" where
  "on_status msg w = w\<lparr>status_label := LblStatus msg\<rparr>"

definition on_countdown :: "nat \<Rightarrow> mainwindow \<Rightarrow> mainwindow" where
  "on_countdown remaining_seconds w =
     w\<lparr>timer_label := (remaining_seconds div 60, remaining_seconds mod 60)\<rparr>"

text \<open>Lines 201-209.\<close>

definition on_finished :: "mainwindow \<Rightarrow> mainwindow" where
  "on_finished w =
     w\<lparr>worker := None, start_btn := True, stop_btn := False, identifier_enabled := True,
       status_label := LblStopped, timer_label := (5, 0)\<rparr>"

text \<open>
  The application as the event loop drives it: the window, and the number of worker
  threads that were started and whose \<open>finished_signal\<close> has not been delivered yet. A
  worker emits \<open>finished_signal\<close> once, as the last thing it does (line 100), so
  \<open>WorkerFinished\<close> is possible only while such a thread exists.
\<close>

record app =
  window :: mainwindow
  threads :: nat

datatype ui_event =
    TypeText string
  | ClickStart
  | ClickStop
  | WorkerStatus status_msg
  | WorkerCountdown nat
  | WorkerFinished

fun handle :: "app \<Rightarrow> ui_event \<Rightarrow> app option" where
  "handle a (TypeText t) = Some (a\<lparr>window := (window a)\<lparr>identifier_edit := t\<rparr>\<rparr>)"
| "handle a ClickStart =
     (case on_start (window a) of
        (None, w) \<Rightarrow> Some (a\<lparr>window := w\<rparr>)
      | (Some pw, w) \<Rightarrow> Some (a\<lparr>window := w, threads := threads a + 1\<rparr>))"
| "handle a ClickStop = Some (a\<lparr>window := on_stop (window a)\<rparr>)"
| "handle a (WorkerStatus msg) = Some (a\<lparr>window := on_status msg (window a)\<rparr>)"
| "handle a (WorkerCountdown n) = Some (a\<lparr>window := on_countdown n (window a)\<rparr>)"
| "handle a WorkerFinished =
     (if threads a = 0 then None
      else Some (a\<lparr>window := on_finished (window a), threads := threads a - 1\<rparr>))"

fun handle_all :: "app \<Rightarrow> ui_event list \<Rightarrow> app option" where
  "handle_all a [] = Some a"
| "handle_all a (ev # evs) =
     (case handle a ev of None \<Rightarrow> None | Some a' \<Rightarrow> handle_all a' evs)"

definition init_app :: app where
  "init_app = \<lparr>window = init_window, threads = 0\<rparr>"

section \<open>Vocabulary for the properties\<close>

text \<open>
  \<open>not_stopped_before e n\<close>: the checks with index below \<open>n\<close> all answer \<open>False\<close>.
\<close>

definition not_stopped_before :: "env \<Rightarrow> nat \<Rightarrow> bool" where
  "not_stopped_before e n = (case stop_at e of None \<Rightarrow> True | Some k \<Rightarrow> n \<le> k)"

text \<open>The state after \<open>c\<close> more checks, \<open>p\<close> more posts and the events \<open>evs\<close>.\<close>

definition advance :: "nat \<Rightarrow> nat \<Rightarrow> event list \<Rightarrow> wstate \<Rightarrow> wstate" where
  "advance c p evs s =
     s\<lparr>checks := checks s + c, posts := posts s + p, trace := trace s @ evs\<rparr>"

text \<open>The events that \<open>s'\<close> has and its earlier state \<open>s\<close> has not.\<close>

definition events_since :: "wstate \<Rightarrow> wstate \<Rightarrow> event list" where
  "events_since s s' = drop (length (trace s)) (trace s')"

text \<open>
  The events of an uninterrupted backoff wait of \<open>d\<close> seconds, of an attempt that raises,
  and of an uninterrupted countdown from \<open>n\<close>.
\<close>

definition waits :: "nat \<Rightarrow> event list" where
  "waits d = concat (replicate d [IsSet False, BackoffWait])"

definition failed :: "nat \<Rightarrow> string \<Rightarrow> event list" where
  "failed attempt m =
     [IsSet False, Post attempt (Raised m), Status (MsgError attempt (take 200 m))]"

definition ticks :: "nat \<Rightarrow> event list" where
  "ticks n = concat (map (\<lambda>r. [IsSet False, Countdown r, IntervalWait]) (rev [1..<Suc n]))"

fun tick_values :: "event list \<Rightarrow> nat list" where
  "tick_values [] = []"
| "tick_values (Countdown n # evs) = n # tick_values evs"
| "tick_values (ev # evs) = tick_values evs"

fun statuses :: "event list \<Rightarrow> status_msg list" where
  "statuses [] = []"
| "statuses (Status m # evs) = m # statuses evs"
| "statuses (ev # evs) = statuses evs"

fun attempts_of :: "event list \<Rightarrow> nat list" where
  "attempts_of [] = []"
| "attempts_of (Post a r # evs) = a # attempts_of evs"
| "attempts_of (ev # evs) = attempts_of evs"

text \<open>The error statuses that belong to the posts that raised, in order.\<close>

fun errors_of :: "event list \<Rightarrow> status_msg list" where
  "errors_of [] = []"
| "errors_of (Post a (Raised m) # evs) = MsgError a (take 200 m) # errors_of evs"
| "errors_of (ev # evs) = errors_of evs"

fun is_tick :: "event \<Rightarrow> bool" where
  "is_tick (Countdown n) = True"
| "is_tick ev = False"

fun is_success :: "status_msg \<Rightarrow> bool" where
  "is_success (MsgSuccess code body) = True"
| "is_success m = False"

fun is_rejected :: "status_msg \<Rightarrow> bool" where
  "is_rejected (MsgNon2xx code body) = True"
| "is_rejected m = False"

text \<open>A post that raised, or an event that is no post.\<close>

fun post_raised :: "event \<Rightarrow> bool" where
  "post_raised (Post a (Response code js txt)) = False"
| "post_raised ev = True"

text \<open>The events of attempts that raise: checks, raising posts, error statuses, backoff waits.\<close>

fun quiet :: "event \<Rightarrow> bool" where
  "quiet (IsSet b) = True"
| "quiet (Post a (Raised m)) = True"
| "quiet BackoffWait = True"
| "quiet (Status (MsgError a m)) = True"
| "quiet ev = False"

text \<open>No countdown tick after the first check that answered \<open>True\<close>.\<close>

definition no_tick_after_stop :: "event list \<Rightarrow> bool" where
  "no_tick_after_stop tr =
     list_all (\<lambda>ev. \<not> is_tick ev) (dropWhile (\<lambda>ev. ev \<noteq> IsSet True) tr)"

text \<open>The events of the two waiting loops.\<close>

fun pause :: "event \<Rightarrow> bool" where
  "pause (IsSet b) = True"
| "pause BackoffWait = True"
| "pause ev = False"

fun counting :: "event \<Rightarrow> bool" where
  "counting (IsSet b) = True"
| "counting (Countdown n) = True"
| "counting IntervalWait = True"
| "counting ev = False"

text \<open>
  The events after the post of attempt \<open>a\<close>, and the number of one-second backoff waits
  among some events.
\<close>

fun after_post :: "nat \<Rightarrow> event list \<Rightarrow> event list" where
  "after_post a [] = []"
| "after_post a (Post b r # evs) = (if a = b then evs else after_post a evs)"
| "after_post a (ev # evs) = after_post a evs"

fun backoff_waits :: "event list \<Rightarrow> nat" where
  "backoff_waits [] = 0"
| "backoff_waits (BackoffWait # evs) = Suc (backoff_waits evs)"
| "backoff_waits (ev # evs) = backoff_waits evs"

text \<open>An environment in which every request times out and nobody stops the worker.\<close>

definition always_timeout :: env where
  "always_timeout = \<lparr>stop_at = None, post = (\<lambda>i. Raised ''timeout'')\<rparr>"

text \<open>
  Two environments in which the first request times out and the second is answered, with
  200 and with 503, and the worker is stopped at the sixth check.
\<close>

definition retry_then_pong :: env where
  "retry_then_pong =
     \<lparr>stop_at = Some 5,
      post = (\<lambda>i. if i = 0 then Raised ''timeout'' else Response 200 (Some ''pong'') [])\<rparr>"

definition retry_then_busy :: env where
  "retry_then_busy =
     \<lparr>stop_at = Some 5,
      post = (\<lambda>i. if i = 0 then Raised ''timeout'' else Response 503 None '' busy '')\<rparr>"

text \<open>
  What holds of the worker state at every point of a run that is stopped at check \<open>k\<close>,
  before \<open>finished_signal\<close>: nothing finished yet, a check that answered \<open>True\<close> is
  behind the index \<open>k\<close>, and no tick followed it.
\<close>

definition stop_inv :: "nat \<Rightarrow> wstate \<Rightarrow> bool" where
  "stop_inv k s =
     (Finished \<notin> set (trace s) \<and> (IsSet True \<in> set (trace s) \<longrightarrow> k < checks s) \<and>
      no_tick_after_stop (trace s))"

text \<open>An environment that stops the worker right after the first check of the outer loop.\<close>

definition stop_before_first_attempt :: env where
  "stop_before_first_attempt = \<lparr>stop_at = Some 1, post = (\<lambda>i. Raised ''timeout'')\<rparr>"

text \<open>
  At most one worker thread exists, and the window holds a worker exactly when one does.
\<close>

definition single_instance :: "app \<Rightarrow> bool" where
  "single_instance a = (threads a \<le> 1 \<and> (threads a = 0 \<longleftrightarrow> worker (window a) = None))"

text \<open>
  A session at the window: start with no identifier, type one, start, a tick arrives,
  start again, stop, the worker finishes, start again; the window with the identifier
  typed; and the application at the end of the session.
\<close>

definition session :: "ui_event list" where
  "session =
     [ClickStart, TypeText '' worker-1 '', ClickStart, WorkerCountdown 300, ClickStart,
      ClickStop, WorkerFinished, ClickStart]"

definition typed_window :: mainwindow where
  "typed_window = init_window\<lparr>identifier_edit := '' worker-1 ''\<rparr>"

definition session_end :: app where
  "session_end =
     \<lparr>window =
        \<lparr>identifier_edit = '' worker-1 '', identifier_enabled = False, timer_label = (5, 0),
         status_label = LblRunning, start_btn = False, stop_btn = True,
         worker = Some \<lparr>worker_identifier = ''worker-1'', stop_event = False\<rparr>\<rparr>,
      threads = 1\<rparr>"

section \<open>Basic facts\<close>

lemma advance_simps [simp]:
  "checks (advance c p evs s) = checks s + c"
  "posts (advance c p evs s) = posts s + p"
  "trace (advance c p evs s) = trace s @ evs"
  by (simp_all add: advance_def)

lemma advance_advance:
  "advance c p evs (advance c' p' evs' s) = advance (c' + c) (p' + p) (evs' @ evs) s"
  by (simp add: advance_def add.assoc)

lemma advance_0 [simp]: "advance 0 0 [] s = s"
  by (simp add: advance_def)

lemma emit_after_advance: "emit ev (advance c p evs s) = advance c p (evs @ [ev]) s"
  by (simp add: emit_def advance_def)

lemma emit_advance: "emit ev s = advance 0 0 [ev] s"
  by (simp add: emit_def advance_def)

lemma events_since_advance [simp]: "events_since s (advance c p evs s) = evs"
  by (simp add: events_since_def)

lemma not_stopped_before_mono:
  "not_stopped_before e n \<Longrightarrow> m \<le> n \<Longrightarrow> not_stopped_before e m"
  by (auto simp: not_stopped_before_def split: option.splits)

lemma is_set_not_stopped:
  "not_stopped_before e (Suc (checks s)) \<Longrightarrow> is_set e s = (False, advance 1 0 [IsSet False] s)"
  by (auto simp: is_set_def not_stopped_before_def advance_def emit_def split: option.splits)

lemma is_set_stopped:
  "stop_at e = Some k \<Longrightarrow> k \<le> checks s \<Longrightarrow> is_set e s = (True, advance 1 0 [IsSet True] s)"
  by (simp add: is_set_def advance_def emit_def)

lemma requests_post_advance:
  "requests_post e attempt s =
     (post e (posts s), advance 0 1 [Post attempt (post e (posts s))] s)"
  by (simp add: requests_post_def emit_def advance_def Let_def)

subsection \<open>Unfolding the loops\<close>

lemma backoff_loop_done: "delay \<le> waited \<Longrightarrow> backoff_loop e waited delay s = s"
  by (subst backoff_loop.simps) simp

lemma backoff_loop_step:
  "waited < delay \<Longrightarrow>
   backoff_loop e waited delay s =
     (case is_set e s of (stopped, s1) \<Rightarrow>
        if stopped then s1 else backoff_loop e (waited + 1) delay (emit BackoffWait s1))"
  by (subst backoff_loop.simps) simp

lemma countdown_done: "countdown e 0 s = s"
  by (subst countdown.simps) simp

lemma countdown_step:
  "countdown e (Suc n) s =
     (case is_set e s of (stopped, s1) \<Rightarrow>
        if stopped then s1 else countdown e n (emit IntervalWait (emit (Countdown (Suc n)) s1)))"
  by (subst countdown.simps) (simp split: prod.split)

subsection \<open>Loops that are not interrupted\<close>

lemma waits_Suc: "waits (Suc d) = [IsSet False, BackoffWait] @ waits d"
  by (simp add: waits_def)

lemma backoff_loop_steps:
  "delay = waited + n \<Longrightarrow> not_stopped_before e (checks s + n) \<Longrightarrow>
   backoff_loop e waited delay s = advance n 0 (waits n) s"
proof (induction n arbitrary: waited s)
  case 0
  then show ?case
    by (simp add: backoff_loop_done waits_def)
next
  case (Suc n)
  have st: "is_set e s = (False, advance 1 0 [IsSet False] s)"
    using Suc.prems(2) by (intro is_set_not_stopped) (auto elim: not_stopped_before_mono)
  have "backoff_loop e (waited + 1) delay (advance 1 0 [IsSet False, BackoffWait] s)
        = advance n 0 (waits n) (advance 1 0 [IsSet False, BackoffWait] s)"
    using Suc.prems by (intro Suc.IH) simp_all
  then show ?case
    using Suc.prems(1) st
    by (simp add: backoff_loop_step emit_after_advance advance_advance waits_Suc)
qed

lemma backoff_loop_not_stopped:
  "not_stopped_before e (checks s + delay) \<Longrightarrow>
   backoff_loop e 0 delay s = advance delay 0 (waits delay) s"
  by (rule backoff_loop_steps) simp_all

lemma ticks_Suc: "ticks (Suc n) = [IsSet False, Countdown (Suc n), IntervalWait] @ ticks n"
  by (simp add: ticks_def)

lemma countdown_not_stopped:
  "not_stopped_before e (checks s + remaining) \<Longrightarrow>
   countdown e remaining s = advance remaining 0 (ticks remaining) s"
proof (induction remaining arbitrary: s)
  case 0
  then show ?case
    by (simp add: countdown_done ticks_def)
next
  case (Suc n)
  have st: "is_set e s = (False, advance 1 0 [IsSet False] s)"
    using Suc.prems by (intro is_set_not_stopped) (auto elim: not_stopped_before_mono)
  have "countdown e n (advance 1 0 [IsSet False, Countdown (Suc n), IntervalWait] s)
        = advance n 0 (ticks n) (advance 1 0 [IsSet False, Countdown (Suc n), IntervalWait] s)"
    using Suc.prems by (intro Suc.IH) simp
  then show ?case
    using st
    by (simp add: countdown_step emit_after_advance advance_advance ticks_Suc)
qed

lemma tick_values_ticks: "tick_values (ticks n) = rev [1..<Suc n]"
  by (induction n) (simp_all add: ticks_def)

subsection \<open>The events of the loops, whatever the environment\<close>

lemma is_set_advance:
  "is_set e s = (fst (is_set e s), advance 1 0 [IsSet (fst (is_set e s))] s)"
  by (simp add: is_set_def Let_def advance_def emit_def)

lemma attempts_of_append [simp]: "attempts_of (xs @ ys) = attempts_of xs @ attempts_of ys"
  by (induction xs rule: attempts_of.induct) simp_all

lemma statuses_append [simp]: "statuses (xs @ ys) = statuses xs @ statuses ys"
  by (induction xs rule: statuses.induct) simp_all

lemma errors_of_append [simp]: "errors_of (xs @ ys) = errors_of xs @ errors_of ys"
  by (induction xs rule: errors_of.induct) simp_all

lemma tick_values_append [simp]: "tick_values (xs @ ys) = tick_values xs @ tick_values ys"
  by (induction xs rule: tick_values.induct) simp_all

lemma pause_events:
  "list_all pause evs \<Longrightarrow>
   attempts_of evs = [] \<and> statuses evs = [] \<and> errors_of evs = [] \<and> list_all quiet evs"
proof (induction evs)
  case Nil
  then show ?case by simp
next
  case (Cons ev evs)
  then show ?case by (cases ev) simp_all
qed

lemma counting_events:
  "list_all counting evs \<Longrightarrow>
   attempts_of evs = [] \<and> statuses evs = [] \<and> list_all post_raised evs"
proof (induction evs)
  case Nil
  then show ?case by simp
next
  case (Cons ev evs)
  then show ?case by (cases ev) simp_all
qed

lemma backoff_loop_events:
  "\<exists>c evs. backoff_loop e waited delay s = advance c 0 evs s \<and> list_all pause evs"
proof (induction e waited delay s rule: backoff_loop.induct)
  case (1 e waited delay s)
  show ?case
  proof (cases "waited < delay")
    case False
    then have "backoff_loop e waited delay s = advance 0 0 [] s"
      by (simp add: backoff_loop_done)
    moreover have "list_all pause []" by simp
    ultimately show ?thesis by blast
  next
    case True
    note step = backoff_loop_step [OF True, of e s]
    show ?thesis
    proof (cases "fst (is_set e s)")
      case True
      then have "backoff_loop e waited delay s = advance 1 0 [IsSet True] s"
        using step is_set_advance [of e s] by (simp split: prod.splits)
      moreover have "list_all pause [IsSet True]" by simp
      ultimately show ?thesis by blast
    next
      case False
      let ?s1 = "advance 1 0 [IsSet False] s"
      from False have st: "is_set e s = (False, ?s1)"
        using is_set_advance [of e s] by simp
      from "1.IH" [OF \<open>waited < delay\<close> st [symmetric]]
      obtain c evs where r: "backoff_loop e (waited + 1) delay (emit BackoffWait ?s1)
          = advance c 0 evs (emit BackoffWait ?s1)" and p: "list_all pause evs"
        by auto
      have "backoff_loop e waited delay s = advance (1 + c) 0 ([IsSet False, BackoffWait] @ evs) s"
        using step st r by (simp add: emit_after_advance advance_advance)
      moreover have "list_all pause ([IsSet False, BackoffWait] @ evs)"
        using p by simp
      ultimately show ?thesis by blast
    qed
  qed
qed

lemma countdown_events:
  "\<exists>c evs. countdown e remaining s = advance c 0 evs s \<and> list_all counting evs"
proof (induction remaining arbitrary: s)
  case 0
  have "countdown e 0 s = advance 0 0 [] s"
    by (simp add: countdown_done)
  moreover have "list_all counting []" by simp
  ultimately show ?case by blast
next
  case (Suc n)
  note step = countdown_step [of e n s]
  show ?case
  proof (cases "fst (is_set e s)")
    case True
    then have "countdown e (Suc n) s = advance 1 0 [IsSet True] s"
      using step is_set_advance [of e s] by (simp split: prod.splits)
    moreover have "list_all counting [IsSet True]" by simp
    ultimately show ?thesis by blast
  next
    case False
    let ?s2 = "advance 1 0 [IsSet False, Countdown (Suc n), IntervalWait] s"
    from False have st: "is_set e s = (False, advance 1 0 [IsSet False] s)"
      using is_set_advance [of e s] by simp
    from Suc.IH [of ?s2] obtain c evs
      where r: "countdown e n ?s2 = advance c 0 evs ?s2" and p: "list_all counting evs"
      by auto
    have "countdown e (Suc n) s
          = advance (1 + c) 0 ([IsSet False, Countdown (Suc n), IntervalWait] @ evs) s"
      using step st r by (simp add: emit_after_advance advance_advance)
    moreover have "list_all counting ([IsSet False, Countdown (Suc n), IntervalWait] @ evs)"
      using p by simp
    ultimately show ?thesis by blast
  qed
qed


lemma send_failed_step:
  assumes "post e (posts s) = Raised m"
    and "not_stopped_before e (checks s + 1 + backoff_delay attempt)"
  shows "send_with_retries e (attempt # rest) s =
         send_with_retries e rest
           (advance (1 + backoff_delay attempt) 1 (failed attempt m @ waits (backoff_delay attempt)) s)"
proof -
  let ?d = "backoff_delay attempt"
  have st: "is_set e s = (False, advance 1 0 [IsSet False] s)"
    using assms(2) by (intro is_set_not_stopped) (auto elim: not_stopped_before_mono)
  have po: "requests_post e attempt (advance 1 0 [IsSet False] s)
            = (Raised m, advance 1 1 [IsSet False, Post attempt (Raised m)] s)"
    using assms(1) by (simp add: requests_post_advance advance_advance)
  have bo: "backoff_loop e 0 ?d (advance 1 1 (failed attempt m) s)
            = advance ?d 0 (waits ?d) (advance 1 1 (failed attempt m) s)"
    using assms(2) by (intro backoff_loop_not_stopped) (simp add: add.commute add.left_commute)
  show ?thesis
    using st po bo
    by (simp add: send_with_retries.simps(2) emit_after_advance advance_advance failed_def)
qed

lemma send_all_failed:
  assumes "post e (posts s) = Raised m1"
    and "post e (posts s + 1) = Raised m2"
    and "post e (posts s + 2) = Raised m3"
    and "not_stopped_before e (checks s + 17)"
  shows "send_with_retries e [1..<MAX_RETRIES + 1] s =
         (False, advance 17 3
            (failed 1 m1 @ waits 2 @ failed 2 m2 @ waits 4 @ failed 3 m3 @ waits 8) s)"
proof -
  have d: "backoff_delay 1 = 2" "backoff_delay 2 = 4" "backoff_delay 3 = 8"
    by (simp_all add: backoff_delay_def INITIAL_RETRY_DELAY_def)
  have l: "[1..<MAX_RETRIES + 1] = [1, 2, 3]"
    by (simp add: MAX_RETRIES_def upt_rec)
  let ?s1 = "advance 3 1 (failed 1 m1 @ waits 2) s"
  let ?s2 = "advance 5 1 (failed 2 m2 @ waits 4) ?s1"
  have ns: "not_stopped_before e (checks s + 1 + backoff_delay 1)"
    "not_stopped_before e (checks ?s1 + 1 + backoff_delay 2)"
    "not_stopped_before e (checks ?s2 + 1 + backoff_delay 3)"
    using assms(4) unfolding d by (auto elim: not_stopped_before_mono)
  have po: "post e (posts ?s1) = Raised m2" "post e (posts ?s2) = Raised m3"
    using assms(2,3) by (simp_all add: add.assoc)
  have 1: "send_with_retries e [1, 2, 3] s = send_with_retries e [2, 3] ?s1"
    using send_failed_step [OF assms(1) ns(1), of "[2, 3]"] unfolding d
    by (simp add: eval_nat_numeral)
  have 2: "send_with_retries e [2, 3] ?s1 = send_with_retries e [3] ?s2"
    using send_failed_step [OF po(1) ns(2), of "[3]"] unfolding d
    by (simp add: eval_nat_numeral)
  have 3: "send_with_retries e [3] ?s2
           = send_with_retries e [] (advance 9 1 (failed 3 m3 @ waits 8) ?s2)"
    using send_failed_step [OF po(2) ns(3), of "[]"] unfolding d
    by (simp add: eval_nat_numeral)
  show ?thesis
    unfolding l 1 2 3 by (simp add: advance_advance)
qed


lemma failed_events [simp]:
  "attempts_of (failed a m) = [a]"
  "statuses (failed a m) = [MsgError a (take 200 m)]"
  "errors_of (failed a m) = [MsgError a (take 200 m)]"
  "list_all quiet (failed a m)"
  by (simp_all add: failed_def)

lemma send_with_retries_events:
  "\<exists>c p evs. snd (send_with_retries e as s) = advance c p evs s \<and>
     prefix (attempts_of evs) as \<and>
     (if fst (send_with_retries e as s)
      then \<exists>pre a code js txt.
             evs = pre @ [Post a (Response code js txt), Status (response_status code js txt)] \<and>
             list_all quiet pre \<and> statuses pre = errors_of pre
      else list_all quiet evs \<and> statuses evs = errors_of evs)"
  (is "\<exists>c p evs. ?P as s c p evs")
proof (induction as arbitrary: s)
  case Nil
  have "?P [] s 0 0 []" by simp
  then show ?case by blast
next
  case (Cons a rest)
  let ?s1 = "advance 1 0 [IsSet False] s"
  show ?case
  proof (cases "fst (is_set e s)")
    case True
    then have "send_with_retries e (a # rest) s = (False, advance 1 0 [IsSet True] s)"
      using is_set_advance [of e s] by (simp add: send_with_retries.simps(2) split: prod.splits)
    then have "?P (a # rest) s 1 0 [IsSet True]" by simp
    then show ?thesis by blast
  next
    case False
    then have st: "is_set e s = (False, ?s1)"
      using is_set_advance [of e s] by simp
    show ?thesis
    proof (cases "post e (posts s)")
      case (Response cd js tx)
      let ?evs = "[IsSet False, Post a (Response cd js tx), Status (response_status cd js tx)]"
      have r: "send_with_retries e (a # rest) s = (True, advance 1 1 ?evs s)"
        using st Response
        by (simp add: send_with_retries.simps(2) requests_post_advance emit_after_advance
            advance_advance)
      have "?P (a # rest) s 1 1 ?evs"
      proof (intro conjI)
        show "snd (send_with_retries e (a # rest) s) = advance 1 1 ?evs s"
          by (simp only: r snd_conv)
        show "prefix (attempts_of ?evs) (a # rest)"
          by simp
        have "?evs = [IsSet False] @ [Post a (Response cd js tx), Status (response_status cd js tx)]"
          by simp
        moreover have "list_all quiet [IsSet False]" "statuses [IsSet False] = errors_of [IsSet False]"
          by simp_all
        ultimately have "\<exists>pre a code js txt.
             ?evs = pre @ [Post a (Response code js txt), Status (response_status code js txt)] \<and>
             list_all quiet pre \<and> statuses pre = errors_of pre"
          by blast
        then show "if fst (send_with_retries e (a # rest) s)
          then \<exists>pre a code js txt.
             ?evs = pre @ [Post a (Response code js txt), Status (response_status code js txt)] \<and>
             list_all quiet pre \<and> statuses pre = errors_of pre
          else list_all quiet ?evs \<and> statuses ?evs = errors_of ?evs"
          by (simp only: r fst_conv if_True)
      qed
      then show ?thesis by blast
    next
      case (Raised m)
      let ?s2 = "advance 1 1 (failed a m) s"
      obtain c bevs where bo: "backoff_loop e 0 (backoff_delay a) ?s2 = advance c 0 bevs ?s2"
        and pa: "list_all pause bevs"
        using backoff_loop_events [of e 0 "backoff_delay a" ?s2] by blast
      let ?s3 = "advance (1 + c) 1 (failed a m @ bevs) s"
      have step: "send_with_retries e (a # rest) s = send_with_retries e rest ?s3"
        using st Raised bo
        by (simp add: send_with_retries.simps(2) requests_post_advance emit_after_advance
            advance_advance failed_def)
      from Cons.IH [of ?s3] obtain c' p' evs' where ih: "?P rest ?s3 c' p' evs'"
        by blast
      let ?xs = "failed a m @ bevs"
      have xs: "attempts_of ?xs = [a]" "list_all quiet ?xs" "statuses ?xs = errors_of ?xs"
        using pause_events [OF pa] by simp_all
      have "?P (a # rest) s (1 + c + c') (1 + p') (?xs @ evs')"
      proof (intro conjI)
        show "snd (send_with_retries e (a # rest) s) = advance (1 + c + c') (1 + p') (?xs @ evs') s"
          using ih step by (simp add: advance_advance)
        show "prefix (attempts_of (?xs @ evs')) (a # rest)"
          using ih xs(1) by simp
        show "if fst (send_with_retries e (a # rest) s)
          then \<exists>pre a code js txt.
             ?xs @ evs' = pre @ [Post a (Response code js txt), Status (response_status code js txt)] \<and>
             list_all quiet pre \<and> statuses pre = errors_of pre
          else list_all quiet (?xs @ evs') \<and> statuses (?xs @ evs') = errors_of (?xs @ evs')"
        proof (cases "fst (send_with_retries e rest ?s3)")
          case True
          with ih obtain pre b cd js tx where
            e': "evs' = pre @ [Post b (Response cd js tx), Status (response_status cd js tx)]"
            and q: "list_all quiet pre" "statuses pre = errors_of pre"
            by auto
          have "?xs @ evs' = (?xs @ pre) @ [Post b (Response cd js tx), Status (response_status cd js tx)]"
            using e' by simp
          moreover have "list_all quiet (?xs @ pre)" "statuses (?xs @ pre) = errors_of (?xs @ pre)"
            using q xs by simp_all
          ultimately show ?thesis
            using True step by (simp only: if_True) blast
        next
          case False
          with ih have "list_all quiet evs'" "statuses evs' = errors_of evs'"
            by auto
          then show ?thesis
            using False step xs by simp
        qed
      qed
      then show ?thesis by blast
    qed
  qed
qed

subsection \<open>One cycle\<close>

lemma prefix_upt_last:
  assumes "prefix (xs @ [k]) [1..<Suc n]"
  shows "xs @ [k] = [1..<Suc k] \<and> 1 \<le> k \<and> k \<le> n"
proof -
  let ?ys = "xs @ [k]"
  have len: "length ?ys \<le> n"
    using prefix_length_le [OF assms] by (simp del: upt_Suc)
  from assms obtain zs where "[1..<Suc n] = ?ys @ zs"
    by (auto simp: prefix_def)
  then have "?ys = take (length ?ys) [1..<Suc n]"
    by (metis append_eq_conv_conj)
  also have "\<dots> = [1..<1 + length ?ys]"
    using len by (intro take_upt) simp
  finally have ys: "?ys = [1..<Suc (length ?ys)]"
    by simp
  then have "last ?ys = last [1..<Suc (length ?ys)]"
    by simp
  then have "k = length ?ys"
    by simp
  with ys len show ?thesis
    by simp
qed

lemma quiet_post_raised: "list_all quiet evs \<Longrightarrow> list_all post_raised evs"
proof (induction evs)
  case Nil
  then show ?case by simp
next
  case (Cons ev evs)
  then show ?case by (cases ev rule: quiet.cases) simp_all
qed

lemma post_raised_Response:
  "list_all post_raised evs \<Longrightarrow> Post a (Response cd js tx) \<notin> set evs"
  by (auto simp: list_all_iff)

lemma post_raised_Post:
  "list_all post_raised evs \<Longrightarrow> Post a r \<in> set evs \<Longrightarrow> \<exists>m. r = Raised m"
  by (cases r) (auto simp: list_all_iff)

lemma errors_of_plain:
  "list_all (\<lambda>m. \<not> is_success m \<and> \<not> is_rejected m \<and> m \<noteq> MsgAllFailed) (errors_of evs)"
  by (induction evs rule: errors_of.induct) simp_all

lemma counting_errors_of: "list_all counting evs \<Longrightarrow> errors_of evs = []"
proof (induction evs)
  case Nil
  then show ?case by simp
next
  case (Cons ev evs)
  then show ?case by (cases ev) simp_all
qed

lemma send_with_retries_extends:
  "trace (snd (send_with_retries e as s)) = trace s @ events_since s (snd (send_with_retries e as s))"
  using send_with_retries_events [of e as s] by auto

lemma cycle_fst_snd:
  "cycle e s =
     countdown e INTERVAL
       (if \<not> fst (send_with_retries e [1..<MAX_RETRIES + 1] s)
        then emit (Status MsgAllFailed) (snd (send_with_retries e [1..<MAX_RETRIES + 1] s))
        else snd (send_with_retries e [1..<MAX_RETRIES + 1] s))"
  by (simp only: cycle_def case_prod_beta)

lemma cycle_cases [case_names delivered undelivered]:
  obtains
    pre a cd js tx cevs where
      "fst (send_with_retries e [1..<MAX_RETRIES + 1] s)"
      "events_since s (cycle e s) =
         pre @ [Post a (Response cd js tx), Status (response_status cd js tx)] @ cevs"
      "list_all quiet pre" "statuses pre = errors_of pre"
      "attempts_of pre @ [a] = [1..<Suc a]" "a \<le> MAX_RETRIES"
      "list_all counting cevs"
  | evs cevs where
      "\<not> fst (send_with_retries e [1..<MAX_RETRIES + 1] s)"
      "events_since s (cycle e s) = evs @ [Status MsgAllFailed] @ cevs"
      "events_since s (snd (send_with_retries e [1..<MAX_RETRIES + 1] s)) = evs"
      "events_since (snd (send_with_retries e [1..<MAX_RETRIES + 1] s)) (cycle e s)
         = Status MsgAllFailed # cevs"
      "list_all quiet evs" "statuses evs = errors_of evs"
      "list_all counting cevs"
proof -
  let ?as = "[1..<MAX_RETRIES + 1]"
  let ?r = "send_with_retries e ?as s"
  obtain c p evs where s1: "snd ?r = advance c p evs s"
    and pf: "prefix (attempts_of evs) ?as"
    and sh: "if fst ?r
      then \<exists>pre a code js txt.
             evs = pre @ [Post a (Response code js txt), Status (response_status code js txt)] \<and>
             list_all quiet pre \<and> statuses pre = errors_of pre
      else list_all quiet evs \<and> statuses evs = errors_of evs"
    using send_with_retries_events [of e ?as s] by blast
  show thesis
  proof (cases "fst ?r")
    case True
    with sh obtain pre a cd js tx where
      ev: "evs = pre @ [Post a (Response cd js tx), Status (response_status cd js tx)]"
      and q: "list_all quiet pre" "statuses pre = errors_of pre"
      by auto
    obtain c' cevs where cd: "countdown e INTERVAL (snd ?r) = advance c' 0 cevs (snd ?r)"
      and cn: "list_all counting cevs"
      using countdown_events [of e INTERVAL "snd ?r"] by blast
    have "cycle e s = advance (c + c') p (evs @ cevs) s"
      using True cd s1 by (simp only: cycle_fst_snd) (simp add: advance_advance)
    then have 1: "events_since s (cycle e s) =
         pre @ [Post a (Response cd js tx), Status (response_status cd js tx)] @ cevs"
      using ev by simp
    have "prefix (attempts_of pre @ [a]) [1..<Suc MAX_RETRIES]"
      using pf ev by (simp del: upt_Suc)
    from prefix_upt_last [OF this]
    have 2: "attempts_of pre @ [a] = [1..<Suc a]" "a \<le> MAX_RETRIES"
      by simp_all
    show ?thesis
      using that(1) [OF True 1 q 2 cn] .
  next
    case False
    with sh have q: "list_all quiet evs" "statuses evs = errors_of evs"
      by auto
    let ?s2 = "emit (Status MsgAllFailed) (snd ?r)"
    obtain c' cevs where cd: "countdown e INTERVAL ?s2 = advance c' 0 cevs ?s2"
      and cn: "list_all counting cevs"
      using countdown_events [of e INTERVAL ?s2] by blast
    have cy: "cycle e s = advance c' 0 cevs ?s2"
      using False cd by (simp only: cycle_fst_snd) simp
    then have "cycle e s = advance (c + c') p (evs @ [Status MsgAllFailed] @ cevs) s"
      using s1 by (simp add: emit_after_advance advance_advance)
    then have 1: "events_since s (cycle e s) = evs @ [Status MsgAllFailed] @ cevs"
      by simp
    have 2: "events_since s (snd ?r) = evs"
      using s1 by simp
    have 3: "events_since (snd ?r) (cycle e s) = Status MsgAllFailed # cevs"
      unfolding cy by (simp add: events_since_def emit_def)
    show ?thesis
      using that(2) [OF False 1 2 3 q cn] .
  qed
qed


lemma backoff_waits_append [simp]:
  "backoff_waits (xs @ ys) = backoff_waits xs + backoff_waits ys"
  by (induction xs rule: backoff_waits.induct) simp_all

lemma backoff_waits_waits [simp]: "backoff_waits (waits d) = d"
  by (induction d) (simp_all add: waits_def)

lemma backoff_waits_failed [simp]: "backoff_waits (failed a m) = 0"
  by (simp add: failed_def)

lemma after_post_failed:
  "after_post a (failed b m @ evs) =
     (if a = b then Status (MsgError b (take 200 m)) # evs else after_post a evs)"
  by (simp add: failed_def)

lemma after_post_waits [simp]: "after_post a (waits d @ evs) = after_post a evs"
  by (induction d) (simp_all add: waits_def)

subsection \<open>Concrete cycles\<close>

lemma list_all_waits: "list_all pause (waits d)"
  by (induction d) (simp_all add: waits_def)

lemma list_all_ticks: "list_all counting (ticks n)"
  by (induction n) (simp_all add: ticks_def)

lemma cycle_always_timeout:
  "cycle always_timeout init_state =
     advance 317 3
       (failed 1 ''timeout'' @ waits 2 @ failed 2 ''timeout'' @ waits 4 @
        failed 3 ''timeout'' @ waits 8 @ [Status MsgAllFailed] @ ticks 300) init_state"
proof -
  have p: "post always_timeout (posts init_state) = Raised ''timeout''"
    "post always_timeout (posts init_state + 1) = Raised ''timeout''"
    "post always_timeout (posts init_state + 2) = Raised ''timeout''"
    by (simp_all add: always_timeout_def)
  have n: "not_stopped_before always_timeout k" for k
    by (simp add: always_timeout_def not_stopped_before_def)
  show ?thesis
    unfolding cycle_fst_snd send_all_failed [OF p n]
    by (simp add: emit_after_advance countdown_not_stopped [OF n] advance_advance INTERVAL_def)
qed

lemma cycle_retry_then_pong:
  "events_since init_state (cycle retry_then_pong init_state) =
     [IsSet False, Post 1 (Raised ''timeout''), Status (MsgError 1 ''timeout''),
      IsSet False, BackoffWait, IsSet False, BackoffWait,
      IsSet False, Post 2 (Response 200 (Some ''pong'') []), Status (MsgSuccess 200 ''pong''),
      IsSet False, Countdown 300, IntervalWait, IsSet True]"
  by code_simp

lemma cycle_retry_then_busy:
  "events_since init_state (cycle retry_then_busy init_state) =
     [IsSet False, Post 1 (Raised ''timeout''), Status (MsgError 1 ''timeout''),
      IsSet False, BackoffWait, IsSet False, BackoffWait,
      IsSet False, Post 2 (Response 503 None '' busy ''), Status (MsgNon2xx 503 ''busy''),
      IsSet False, Countdown 300, IntervalWait, IsSet True]"
  by code_simp


subsection \<open>A run that is stopped\<close>

lemma no_tick_after_stop_snoc:
  "no_tick_after_stop (tr @ [ev]) =
     (no_tick_after_stop tr \<and> (IsSet True \<in> set tr \<longrightarrow> \<not> is_tick ev))"
proof (cases "IsSet True \<in> set tr")
  case True
  then show ?thesis
    by (simp add: no_tick_after_stop_def dropWhile_append1)
next
  case False
  then have a: "dropWhile (\<lambda>ev. ev \<noteq> IsSet True) tr = []"
    by (auto simp: dropWhile_eq_Nil_conv)
  have b: "dropWhile (\<lambda>ev. ev \<noteq> IsSet True) (tr @ [ev]) =
      dropWhile (\<lambda>ev. ev \<noteq> IsSet True) [ev]"
    using False by (intro dropWhile_append2) auto
  show ?thesis
    unfolding no_tick_after_stop_def a b using False by simp
qed

lemma stop_inv_is_set:
  assumes "stop_at e = Some k" and "stop_inv k s"
  shows "stop_inv k (snd (is_set e s))"
    and "checks (snd (is_set e s)) = checks s + 1"
    and "fst (is_set e s) \<longleftrightarrow> k \<le> checks s"
    and "\<not> fst (is_set e s) \<Longrightarrow> IsSet True \<notin> set (trace (snd (is_set e s)))"
  using assms
  by (auto simp: is_set_def Let_def stop_inv_def emit_def no_tick_after_stop_snoc)

lemma stop_inv_emit:
  assumes "stop_inv k s" and "ev \<noteq> Finished" and "ev \<noteq> IsSet True"
    and "is_tick ev \<Longrightarrow> IsSet True \<notin> set (trace s)"
  shows "stop_inv k (emit ev s)" and "checks (emit ev s) = checks s"
  using assms by (auto simp: stop_inv_def emit_def no_tick_after_stop_snoc)

lemma backoff_loop_inv:
  assumes "stop_at e = Some k"
  shows "stop_inv k s \<Longrightarrow>
         stop_inv k (backoff_loop e waited delay s) \<and>
         checks s \<le> checks (backoff_loop e waited delay s)"
  using assms
proof (induction e waited delay s rule: backoff_loop.induct)
  case (1 e waited delay s)
  note chk = stop_inv_is_set [OF "1.prems"(2,1)]
  show ?case
  proof (cases "waited < delay")
    case False
    with "1.prems" show ?thesis
      by (simp add: backoff_loop_done)
  next
    case True
    show ?thesis
    proof (cases "fst (is_set e s)")
      case True
      then have "backoff_loop e waited delay s = snd (is_set e s)"
        using \<open>waited < delay\<close> by (simp add: backoff_loop_step case_prod_beta)
      with chk show ?thesis by simp
    next
      case False
      let ?s2 = "emit BackoffWait (snd (is_set e s))"
      have r: "backoff_loop e waited delay s = backoff_loop e (waited + 1) delay ?s2"
        using False \<open>waited < delay\<close> by (simp add: backoff_loop_step case_prod_beta)
      have i2: "stop_inv k ?s2" "checks ?s2 = checks s + 1"
        using stop_inv_emit [OF chk(1), of BackoffWait] chk(2) by simp_all
      have "stop_inv k (backoff_loop e (waited + 1) delay ?s2) \<and>
            checks ?s2 \<le> checks (backoff_loop e (waited + 1) delay ?s2)"
        using "1.IH" [of "fst (is_set e s)" "snd (is_set e s)"] \<open>waited < delay\<close> False i2(1)
          "1.prems" by (simp add: prod_eq_iff)
      then show ?thesis
        using r i2(2) by simp
    qed
  qed
qed

lemma countdown_inv:
  assumes "stop_at e = Some k"
  shows "stop_inv k s \<Longrightarrow>
         stop_inv k (countdown e remaining s) \<and> checks s \<le> checks (countdown e remaining s)"
proof (induction remaining arbitrary: s)
  case 0
  then show ?case by (simp add: countdown_done)
next
  case (Suc n)
  note chk = stop_inv_is_set [OF assms Suc.prems]
  show ?case
  proof (cases "fst (is_set e s)")
    case True
    then have "countdown e (Suc n) s = snd (is_set e s)"
      by (simp add: countdown_step case_prod_beta)
    with chk show ?thesis by simp
  next
    case False
    let ?s2 = "emit (Countdown (Suc n)) (snd (is_set e s))"
    let ?s3 = "emit IntervalWait ?s2"
    have r: "countdown e (Suc n) s = countdown e n ?s3"
      using False by (simp add: countdown_step case_prod_beta)
    have i2: "stop_inv k ?s2" "checks ?s2 = checks s + 1"
      using stop_inv_emit [OF chk(1), of "Countdown (Suc n)"] chk(2) chk(4) [OF False] by simp_all
    have i3: "stop_inv k ?s3" "checks ?s3 = checks s + 1"
      using stop_inv_emit [OF i2(1), of IntervalWait] i2(2) by simp_all
    from Suc.IH [OF i3(1)] show ?thesis
      using r i3(2) by simp
  qed
qed

lemma send_with_retries_inv:
  assumes "stop_at e = Some k"
  shows "stop_inv k s \<Longrightarrow>
         stop_inv k (snd (send_with_retries e as s)) \<and>
         checks s \<le> checks (snd (send_with_retries e as s))"
proof (induction as arbitrary: s)
  case Nil
  then show ?case by simp
next
  case (Cons a rest)
  note chk = stop_inv_is_set [OF assms Cons.prems]
  show ?case
  proof (cases "fst (is_set e s)")
    case True
    then have "send_with_retries e (a # rest) s = (False, snd (is_set e s))"
      by (simp add: send_with_retries.simps(2) case_prod_beta)
    with chk show ?thesis by simp
  next
    case False
    let ?s1 = "snd (is_set e s)"
    let ?r = "post e (posts ?s1)"
    let ?s2 = "emit (Post a ?r) (?s1\<lparr>posts := posts ?s1 + 1\<rparr>)"
    have i2: "stop_inv k ?s2" "checks ?s2 = checks s + 1"
      using chk(1,2) by (simp_all add: stop_inv_def emit_def no_tick_after_stop_snoc)
    show ?thesis
    proof (cases ?r)
      case (Response cd js tx)
      let ?s3 = "emit (Status (response_status cd js tx)) ?s2"
      have "send_with_retries e (a # rest) s = (True, ?s3)"
        using False Response
        by (simp add: send_with_retries.simps(2) requests_post_def Let_def case_prod_beta)
      moreover have "stop_inv k ?s3" "checks ?s3 = checks s + 1"
        using stop_inv_emit [OF i2(1), of "Status (response_status cd js tx)"] i2(2) by simp_all
      ultimately show ?thesis by simp
    next
      case (Raised m)
      let ?s3 = "emit (Status (MsgError a (take 200 m))) ?s2"
      let ?s4 = "backoff_loop e 0 (backoff_delay a) ?s3"
      have r: "send_with_retries e (a # rest) s = send_with_retries e rest ?s4"
        using False Raised
        by (simp add: send_with_retries.simps(2) requests_post_def Let_def case_prod_beta)
      have i3: "stop_inv k ?s3" "checks ?s3 = checks s + 1"
        using stop_inv_emit [OF i2(1), of "Status (MsgError a (take 200 m))"] i2(2) by simp_all
      have i4: "stop_inv k ?s4" "checks ?s3 \<le> checks ?s4"
        using backoff_loop_inv [OF assms i3(1), of 0 "backoff_delay a"] by simp_all
      from Cons.IH [OF i4(1)] show ?thesis
        using r i3(2) i4(2) by simp
    qed
  qed
qed

lemma cycle_inv:
  assumes "stop_at e = Some k" and "stop_inv k s"
  shows "stop_inv k (cycle e s)" and "checks s \<le> checks (cycle e s)"
proof -
  define r where "r = send_with_retries e [1..<MAX_RETRIES + 1] s"
  define s2 where "s2 = (if \<not> fst r then emit (Status MsgAllFailed) (snd r) else snd r)"
  have cy: "cycle e s = countdown e INTERVAL s2"
    unfolding s2_def r_def by (simp only: cycle_fst_snd)
  have i1: "stop_inv k (snd r)" "checks s \<le> checks (snd r)"
    unfolding r_def using send_with_retries_inv [OF assms] by simp_all
  have i2: "stop_inv k s2" "checks s2 = checks (snd r)"
    unfolding s2_def using stop_inv_emit [OF i1(1), of "Status MsgAllFailed"] i1(1) by simp_all
  have "stop_inv k (countdown e INTERVAL s2) \<and> checks s2 \<le> checks (countdown e INTERVAL s2)"
    using countdown_inv [OF assms(1) i2(1)] .
  then show "stop_inv k (cycle e s)" and "checks s \<le> checks (cycle e s)"
    unfolding cy using i1(2) i2(2) by simp_all
qed

lemma run_loop_terminates:
  assumes "stop_at e = Some k"
  shows "stop_inv k s \<Longrightarrow>
         \<exists>s'. run_loop e s = Some s' \<and> stop_inv k s' \<and> IsSet True \<in> set (trace s')"
proof (induction "k - checks s" arbitrary: s rule: less_induct)
  case less
  note chk = stop_inv_is_set [OF assms less.prems]
  show ?case
  proof (cases "fst (is_set e s)")
    case True
    then have "run_loop e s = Some (snd (is_set e s))"
      by (subst run_loop.simps) (simp add: case_prod_beta)
    moreover have "IsSet True \<in> set (trace (snd (is_set e s)))"
      using True by (simp add: is_set_def Let_def emit_def)
    ultimately show ?thesis
      using chk(1) by simp
  next
    case False
    let ?s1 = "snd (is_set e s)"
    have r: "run_loop e s = run_loop e (cycle e ?s1)"
      using False by (subst run_loop.simps) (simp add: case_prod_beta)
    have c: "stop_inv k (cycle e ?s1)" "checks ?s1 \<le> checks (cycle e ?s1)"
      using cycle_inv [OF assms chk(1)] by simp_all
    have "k - checks (cycle e ?s1) < k - checks s"
      using False chk(2,3) c(2) by simp
    from less.hyps [OF this c(1)] show ?thesis
      unfolding r .
  qed
qed


lemma stop_inv_init: "stop_inv k init_state"
  by (simp add: stop_inv_def init_state_def no_tick_after_stop_def)

lemma send_with_retries_stopped:
  assumes "stop_at e = Some k" and "k \<le> checks s"
  shows "send_with_retries e (a # rest) s = (False, advance 1 0 [IsSet True] s)"
  using is_set_stopped [OF assms] by (simp add: send_with_retries.simps(2))

lemma countdown_stopped:
  assumes "stop_at e = Some k" and "k \<le> checks s" and "0 < n"
  shows "countdown e n s = advance 1 0 [IsSet True] s"
proof -
  from assms(3) obtain m where "n = Suc m"
    by (cases n) simp_all
  then show ?thesis
    using is_set_stopped [OF assms(1,2)] by (simp add: countdown_step)
qed

lemma run_loop_stopped:
  assumes "stop_at e = Some k" and "k \<le> checks s"
  shows "run_loop e s = Some (advance 1 0 [IsSet True] s)"
  using is_set_stopped [OF assms] by (subst run_loop.simps) simp

lemma backoff_loop_checks:
  "checks s \<le> checks (backoff_loop e waited delay s)"
  using backoff_loop_events [of e waited delay s] by auto

lemma send_with_retries_observed:
  assumes "stop_at e = Some k"
  shows "checks s \<le> k \<Longrightarrow> k < checks (snd (send_with_retries e as s)) \<Longrightarrow>
         \<not> fst (send_with_retries e as s)"
proof (induction as arbitrary: s)
  case Nil
  then show ?case by simp
next
  case (Cons a rest)
  show ?case
  proof (cases "k \<le> checks s")
    case True
    then show ?thesis
      by (simp add: send_with_retries_stopped [OF assms])
  next
    case False
    then have ns: "not_stopped_before e (Suc (checks s))"
      using assms by (simp add: not_stopped_before_def)
    note st = is_set_not_stopped [OF ns]
    show ?thesis
    proof (cases "post e (posts s)")
      case (Response cd js tx)
      then have "checks (snd (send_with_retries e (a # rest) s)) = checks s + 1"
        using st by (simp add: send_with_retries.simps(2) requests_post_advance emit_def)
      with Cons.prems False show ?thesis by simp
    next
      case (Raised m)
      let ?s3 = "backoff_loop e 0 (backoff_delay a)
          (emit (Status (MsgError a (take 200 m))) (advance 0 1 [Post a (Raised m)]
             (advance 1 0 [IsSet False] s)))"
      have r: "send_with_retries e (a # rest) s = send_with_retries e rest ?s3"
        using st Raised by (simp add: send_with_retries.simps(2) requests_post_advance)
      show ?thesis
      proof (cases "checks ?s3 \<le> k")
        case True
        from Cons.IH [OF True] Cons.prems(2) show ?thesis
          unfolding r by simp
      next
        case False
        then have "k \<le> checks ?s3" by simp
        then have "\<not> fst (send_with_retries e rest ?s3)"
          by (cases rest) (simp_all add: send_with_retries_stopped [OF assms])
        then show ?thesis
          unfolding r .
      qed
    qed
  qed
qed

subsection \<open>The window\<close>

lemma on_start_cases:
  "on_start w =
     (if strip (identifier_edit w) = [] then (None, w\<lparr>status_label := LblNoIdentifier\<rparr>)
      else if worker w \<noteq> None then (None, w\<lparr>status_label := LblAlreadyRunning\<rparr>)
      else (Some \<lparr>worker_identifier = strip (identifier_edit w), stop_event = False\<rparr>,
            w\<lparr>worker := Some \<lparr>worker_identifier = strip (identifier_edit w), stop_event = False\<rparr>,
              start_btn := False, stop_btn := True, identifier_enabled := False,
              status_label := LblRunning\<rparr>))"
  by (simp add: on_start_def Let_def)

lemma handle_single_instance:
  assumes "single_instance a" and "handle a ev = Some a'"
  shows "single_instance a'"
proof (cases ev)
  case (TypeText t)
  with assms show ?thesis by (auto simp: single_instance_def)
next
  case ClickStart
  with assms show ?thesis
    by (auto simp: single_instance_def on_start_cases split: if_splits)
next
  case ClickStop
  with assms show ?thesis
    by (auto simp: single_instance_def on_stop_def split: option.splits)
next
  case (WorkerStatus msg)
  with assms show ?thesis by (auto simp: single_instance_def on_status_def)
next
  case (WorkerCountdown n)
  with assms show ?thesis by (auto simp: single_instance_def on_countdown_def)
next
  case WorkerFinished
  with assms show ?thesis
    by (auto simp: single_instance_def on_finished_def split: if_splits)
qed

lemma handle_all_single_instance:
  "single_instance a \<Longrightarrow> handle_all a evs = Some a' \<Longrightarrow> single_instance a'"
proof (induction evs arbitrary: a)
  case Nil
  then show ?case by simp
next
  case (Cons ev evs)
  then show ?case
    by (auto split: option.splits dest: handle_single_instance)
qed

lemma on_start_init_window: "fst (on_start init_window) = None"
  by code_simp

lemma on_start_typed_window:
  "fst (on_start typed_window) = Some \<lparr>worker_identifier = ''worker-1'', stop_event = False\<rparr>"
  by code_simp

lemma handle_all_session: "handle_all init_app session = Some session_end"
  by code_simp

section \<open>Backoff delay\<close>

text \<open>
  C3. For every attempt number \<open>n\<close> from 1 to \<open>MAX_RETRIES = 3\<close>, the delay computed after
  a failed attempt \<open>n\<close> is \<open>min 30 (2 * 2 ^ (n - 1))\<close> seconds, that is 2, 4 and 8 seconds
  for \<open>n = 1, 2, 3\<close>, and the cap of 30 seconds is never the binding value.
\<close>

theorem backoff_delay_upto_max:
  assumes "1 \<le> n" and "n \<le> MAX_RETRIES"
  shows "backoff_delay n = min 30 (2 * 2 ^ (n - 1)) \<and>
         backoff_delay n = [2, 4, 8] ! (n - 1) \<and>
         2 * 2 ^ (n - 1) < (30 :: nat)"
proof -
  from assms have "n = 1 \<or> n = 2 \<or> n = 3"
    by (auto simp: MAX_RETRIES_def)
  then show ?thesis
    by (auto simp: backoff_delay_def INITIAL_RETRY_DELAY_def)
qed

theorem backoff_delay_upto_max_witness:
  "(1 :: nat) \<le> 3 \<and> 3 \<le> MAX_RETRIES \<and>
   backoff_delay 3 = min 30 (2 * 2 ^ (3 - 1)) \<and> backoff_delay 3 = 8"
  using backoff_delay_upto_max [of 3] by (simp add: MAX_RETRIES_def)

section \<open>Body preview\<close>

text \<open>
  C9. For every response body string, the displayed body is the string itself when it has
  at most 300 characters, and its first 300 characters followed by the marker \<open>...\<close> when
  it has more than 300. The status text of a response carries this displayed form of the
  body string (\<open>str(resp.json())\<close>, or the stripped text when the body does not decode).
\<close>

theorem display_body_truncates:
  "(length body_str \<le> 300 \<longrightarrow> display_body body_str = body_str) \<and>
   (length body_str > 300 \<longrightarrow> display_body body_str = take 300 body_str @ ''...'') \<and>
   response_status code (Some body_str) txt =
     (if 200 \<le> code \<and> code < 300 then MsgSuccess code (display_body body_str)
      else MsgNon2xx code (display_body body_str))"
  by (simp add: display_body_def response_status_def)

theorem display_body_truncates_witness:
  "length ''pong'' \<le> 300 \<and> display_body ''pong'' = ''pong'' \<and>
   length (replicate 301 CHR ''x'') > 300 \<and>
   display_body (replicate 301 CHR ''x'') = take 300 (replicate 301 CHR ''x'') @ ''...''"
  using display_body_truncates [of "''pong''"] display_body_truncates [of "replicate 301 CHR ''x''"]
  by simp

section \<open>Countdown\<close>

text \<open>
  C7. In an interval phase that cancellation does not interrupt (the 300 checks of the
  countdown loop all answer \<open>False\<close>), the countdown values emitted are exactly
  300, 299, ..., 1, and each is emitted right before its one-second wait: the phase
  consists of 300 rounds of check, tick, wait.
\<close>

theorem countdown_ticks:
  assumes "not_stopped_before e (checks s + INTERVAL)"
  shows "tick_values (events_since s (countdown e INTERVAL s)) = rev [1..<301] \<and>
         events_since s (countdown e INTERVAL s) =
           concat (map (\<lambda>r. [IsSet False, Countdown r, IntervalWait]) (rev [1..<301]))"
proof -
  have "countdown e INTERVAL s = advance INTERVAL 0 (ticks INTERVAL) s"
    using assms by (rule countdown_not_stopped)
  then have ev: "events_since s (countdown e INTERVAL s) = ticks INTERVAL"
    by simp
  have "ticks INTERVAL =
          concat (map (\<lambda>r. [IsSet False, Countdown r, IntervalWait]) (rev [1..<301]))"
    by (simp add: ticks_def INTERVAL_def)
  moreover have "tick_values (ticks INTERVAL) = rev [1..<301]"
    by (simp add: tick_values_ticks INTERVAL_def)
  ultimately show ?thesis
    using ev by simp
qed

theorem countdown_ticks_witness:
  "not_stopped_before \<lparr>stop_at = None, post = (\<lambda>i. Raised [])\<rparr> (checks init_state + INTERVAL) \<and>
   tick_values (events_since init_state
      (countdown \<lparr>stop_at = None, post = (\<lambda>i. Raised [])\<rparr> INTERVAL init_state)) = rev [1..<301]"
proof -
  have h: "not_stopped_before \<lparr>stop_at = None, post = (\<lambda>i. Raised [])\<rparr>
             (checks init_state + INTERVAL)"
    by (simp add: not_stopped_before_def)
  from countdown_ticks [OF h] h show ?thesis
    by blast
qed

section \<open>Delivery with retries\<close>

text \<open>
  C1, as the code has it. After an attempt that raises, the worker waits out the backoff
  delay of that attempt whether or not attempts remain. In a cycle in which the three
  attempts raise and the worker is not stopped, the delivery phase is: attempt 1, 2 waits of
  one second, attempt 2, 4 waits, attempt 3, 8 waits. So there are three backoff waits, 14
  seconds in all, and the last one, of 8 seconds, follows the final attempt.
\<close>

theorem backoff_after_every_failure:
  assumes "post e (posts s) = Raised m1"
    and "post e (posts s + 1) = Raised m2"
    and "post e (posts s + 2) = Raised m3"
    and "not_stopped_before e (checks s + 17)"
  shows "send_with_retries e [1..<MAX_RETRIES + 1] s =
           (False, advance 17 3
              (failed 1 m1 @ waits 2 @ failed 2 m2 @ waits 4 @ failed 3 m3 @ waits 8) s) \<and>
         after_post 3 (events_since s (snd (send_with_retries e [1..<MAX_RETRIES + 1] s))) =
           Status (MsgError 3 (take 200 m3)) # waits 8 \<and>
         backoff_waits (events_since s (snd (send_with_retries e [1..<MAX_RETRIES + 1] s))) = 14"
proof -
  note r = send_all_failed [OF assms]
  have "after_post 3 (failed 1 m1 @ waits 2 @ failed 2 m2 @ waits 4 @ failed 3 m3 @ waits 8)
        = Status (MsgError 3 (take 200 m3)) # waits 8"
    by (simp add: after_post_failed)
  then show ?thesis
    unfolding r by simp
qed

theorem backoff_after_every_failure_witness:
  "post always_timeout (posts init_state) = Raised ''timeout'' \<and>
   not_stopped_before always_timeout (checks init_state + 17) \<and>
   backoff_waits (events_since init_state
      (snd (send_with_retries always_timeout [1..<MAX_RETRIES + 1] init_state))) = 14"
proof -
  have p: "post always_timeout (posts init_state) = Raised ''timeout''"
    "post always_timeout (posts init_state + 1) = Raised ''timeout''"
    "post always_timeout (posts init_state + 2) = Raised ''timeout''"
    by (simp_all add: always_timeout_def)
  have n: "not_stopped_before always_timeout (checks init_state + 17)"
    by (simp add: always_timeout_def not_stopped_before_def)
  from backoff_after_every_failure [OF p n] p(1) n show ?thesis
    by blast
qed

text \<open>
  C1 as stated (no backoff wait after the final attempt, two backoff waits in all) fails
  where every request times out: 8 one-second backoff waits follow the post of attempt 3,
  and the delivery phase has 14 of them, not 6.
\<close>

theorem no_backoff_after_final_attempt_counterexample:
  "backoff_waits (after_post 3
      (trace (snd (send_with_retries always_timeout [1..<MAX_RETRIES + 1] init_state)))) = 8 \<and>
   backoff_waits (after_post 3
      (trace (snd (send_with_retries always_timeout [1..<MAX_RETRIES + 1] init_state)))) \<noteq> 0 \<and>
   backoff_waits
      (trace (snd (send_with_retries always_timeout [1..<MAX_RETRIES + 1] init_state))) = 14"
proof -
  have p: "post always_timeout (posts init_state) = Raised ''timeout''"
    "post always_timeout (posts init_state + 1) = Raised ''timeout''"
    "post always_timeout (posts init_state + 2) = Raised ''timeout''"
    by (simp_all add: always_timeout_def)
  have n: "not_stopped_before always_timeout (checks init_state + 17)"
    by (simp add: always_timeout_def not_stopped_before_def)
  have t: "trace init_state = []"
    by (simp add: init_state_def)
  show ?thesis
    unfolding send_all_failed [OF p n] by (simp add: t after_post_failed)
qed

text \<open>
  C2. If an attempt of a cycle is answered with a status code outside 200..299, then the
  cycle is marked as succeeded, its status updates are the error statuses of the attempts
  that raised followed by the status describing the non-2xx response (so no total-failure
  status), the attempts made are exactly 1 to \<open>k\<close>, and every other attempt of the cycle,
  each of which was followed by a retry, raised an exception.
\<close>

theorem rejection_ends_delivery:
  assumes "Post k (Response code js txt) \<in> set (events_since s (cycle e s))"
    and "\<not> (200 \<le> code \<and> code < 300)"
  shows "fst (send_with_retries e [1..<MAX_RETRIES + 1] s) \<and>
         statuses (events_since s (cycle e s)) =
           errors_of (events_since s (cycle e s)) @
           [MsgNon2xx code (display_body (case js of Some body \<Rightarrow> body | None \<Rightarrow> strip txt))] \<and>
         attempts_of (events_since s (cycle e s)) = [1..<Suc k] \<and>
         (\<forall>j r. Post j r \<in> set (events_since s (cycle e s)) \<and> j \<noteq> k \<longrightarrow> (\<exists>m. r = Raised m))"
proof (cases e s rule: cycle_cases)
  case (undelivered evs cevs)
  have "list_all post_raised (evs @ [Status MsgAllFailed] @ cevs)"
    using undelivered(5,7) by (simp add: quiet_post_raised counting_events)
  with assms(1) undelivered(2) show ?thesis
    by (simp add: post_raised_Response)
next
  case (delivered pre a cd jb tx cevs)
  have pr: "list_all post_raised pre" "list_all post_raised cevs"
    using delivered(3,7) by (simp_all add: quiet_post_raised counting_events)
  then have "Post k (Response code js txt) \<notin> set pre" "Post k (Response code js txt) \<notin> set cevs"
    by (simp_all add: post_raised_Response)
  with assms(1) delivered(2) have eq: "a = k" "cd = code" "jb = js" "tx = txt"
    by auto
  have st: "statuses (events_since s (cycle e s)) =
      errors_of (events_since s (cycle e s)) @ [response_status code js txt]"
    using delivered(2,4,7) eq by (simp add: counting_events counting_errors_of)
  have at: "attempts_of (events_since s (cycle e s)) = [1..<Suc k]"
    using delivered(2,5,7) eq by (simp add: counting_events del: upt_Suc)
  have "\<exists>m. r = Raised m" if "Post j r \<in> set (events_since s (cycle e s))" "j \<noteq> k" for j r
  proof -
    from that delivered(2) eq have "Post j r \<in> set pre \<or> Post j r \<in> set cevs"
      by auto
    then show ?thesis
      using pr by (auto dest: post_raised_Post)
  qed
  then show ?thesis
    using delivered(1) st at assms(2) by (simp add: response_status_def del: upt_Suc) blast
qed

theorem rejection_ends_delivery_witness:
  "Post 2 (Response 503 None '' busy '') \<in> set (events_since init_state (cycle retry_then_busy init_state)) \<and>
   \<not> (200 \<le> (503 :: int) \<and> (503 :: int) < 300) \<and>
   fst (send_with_retries retry_then_busy [1..<MAX_RETRIES + 1] init_state) \<and>
   attempts_of (events_since init_state (cycle retry_then_busy init_state)) = [1..<Suc 2]"
proof -
  have h: "Post 2 (Response 503 None '' busy '')
           \<in> set (events_since init_state (cycle retry_then_busy init_state))"
    unfolding cycle_retry_then_busy by simp
  have c: "\<not> (200 \<le> (503 :: int) \<and> (503 :: int) < 300)"
    by simp
  from rejection_ends_delivery [OF h c] h c show ?thesis
    by blast
qed

text \<open>
  C4. If attempt \<open>k\<close> of a cycle is answered with a status code in 200..299, then the cycle
  emits exactly one success status, the one of that response, and the attempts made in the
  cycle are exactly 1 to \<open>k\<close>, with \<open>k \<le> 3\<close>: attempts \<open>k + 1\<close> to 3 do not occur.
\<close>

theorem success_ends_delivery:
  assumes "Post k (Response code js txt) \<in> set (events_since s (cycle e s))"
    and "200 \<le> code" and "code < 300"
  shows "filter is_success (statuses (events_since s (cycle e s))) =
           [MsgSuccess code (display_body (case js of Some body \<Rightarrow> body | None \<Rightarrow> strip txt))] \<and>
         attempts_of (events_since s (cycle e s)) = [1..<Suc k] \<and>
         k \<le> MAX_RETRIES"
proof (cases e s rule: cycle_cases)
  case (undelivered evs cevs)
  have "list_all post_raised (evs @ [Status MsgAllFailed] @ cevs)"
    using undelivered(5,7) by (simp add: quiet_post_raised counting_events)
  with assms(1) undelivered(2) show ?thesis
    by (simp add: post_raised_Response)
next
  case (delivered pre a cd jb tx cevs)
  have "Post k (Response code js txt) \<notin> set pre" "Post k (Response code js txt) \<notin> set cevs"
    using delivered(3,7) by (simp_all add: quiet_post_raised counting_events post_raised_Response)
  with assms(1) delivered(2) have eq: "a = k" "cd = code" "jb = js" "tx = txt"
    by auto
  have "filter is_success (errors_of pre) = []"
    using errors_of_plain [of pre] by (auto simp: filter_empty_conv list_all_iff)
  then have "filter is_success (statuses (events_since s (cycle e s))) =
      filter is_success [response_status code js txt]"
    using delivered(2,4,7) eq by (simp add: counting_events)
  moreover have "attempts_of (events_since s (cycle e s)) = [1..<Suc k]"
    using delivered(2,5,7) eq by (simp add: counting_events del: upt_Suc)
  ultimately show ?thesis
    using assms(2,3) delivered(6) eq by (simp add: response_status_def del: upt_Suc)
qed


theorem success_ends_delivery_witness:
  "Post 2 (Response 200 (Some ''pong'') []) \<in> set (events_since init_state (cycle retry_then_pong init_state)) \<and>
   filter is_success (statuses (events_since init_state (cycle retry_then_pong init_state))) =
     [MsgSuccess 200 (display_body ''pong'')] \<and>
   attempts_of (events_since init_state (cycle retry_then_pong init_state)) = [1..<Suc 2]"
proof -
  have h: "Post 2 (Response 200 (Some ''pong'') [])
           \<in> set (events_since init_state (cycle retry_then_pong init_state))"
    unfolding cycle_retry_then_pong by simp
  from success_ends_delivery [OF h] h show ?thesis
    by simp
qed

text \<open>
  C5. If every request of a cycle raises, then the cycle is not marked as succeeded, its
  status updates are the error statuses of the attempts followed by the total-failure
  status, none of them a success or a non-2xx status, and the cycle goes on with the
  countdown: when the worker is not stopped during it, all the 300 ticks follow.
\<close>

theorem all_failed_cycle:
  assumes "list_all post_raised (events_since s (cycle e s))"
  shows "\<not> fst (send_with_retries e [1..<MAX_RETRIES + 1] s) \<and>
         statuses (events_since s (cycle e s)) =
           errors_of (events_since s (cycle e s)) @ [MsgAllFailed] \<and>
         list_all (\<lambda>m. \<not> is_success m \<and> \<not> is_rejected m) (statuses (events_since s (cycle e s))) \<and>
         cycle e s =
           countdown e INTERVAL
             (emit (Status MsgAllFailed) (snd (send_with_retries e [1..<MAX_RETRIES + 1] s))) \<and>
         (not_stopped_before e (checks (snd (send_with_retries e [1..<MAX_RETRIES + 1] s)) + INTERVAL)
            \<longrightarrow> tick_values (events_since s (cycle e s)) = rev [1..<301])"
proof (cases e s rule: cycle_cases)
  case (delivered pre a cd jb tx cevs)
  with assms show ?thesis
    by simp
next
  case (undelivered evs cevs)
  let ?s1 = "snd (send_with_retries e [1..<MAX_RETRIES + 1] s)"
  have st: "statuses (events_since s (cycle e s)) =
      errors_of (events_since s (cycle e s)) @ [MsgAllFailed]"
    using undelivered(2,6,7) by (simp add: counting_events counting_errors_of)
  have pl: "list_all (\<lambda>m. \<not> is_success m \<and> \<not> is_rejected m) (statuses (events_since s (cycle e s)))"
    unfolding st using errors_of_plain [of "events_since s (cycle e s)"]
    by (simp add: list_all_iff)
  have cy: "cycle e s = countdown e INTERVAL (emit (Status MsgAllFailed) ?s1)"
    using undelivered(1) by (simp only: cycle_fst_snd) simp
  have "tick_values (events_since s (cycle e s)) = rev [1..<301]"
    if "not_stopped_before e (checks ?s1 + INTERVAL)"
  proof -
    have "countdown e INTERVAL (emit (Status MsgAllFailed) ?s1)
          = advance INTERVAL 0 (ticks INTERVAL) (emit (Status MsgAllFailed) ?s1)"
      using that by (intro countdown_not_stopped) (simp add: emit_def)
    then have "events_since ?s1 (cycle e s) = Status MsgAllFailed # ticks INTERVAL"
      unfolding cy by (simp add: events_since_def emit_def)
    with undelivered(4) have "cevs = ticks INTERVAL"
      by simp
    moreover have "tick_values evs = []"
      using undelivered(5) by (induction evs rule: tick_values.induct) simp_all
    ultimately show ?thesis
      using undelivered(2) by (simp add: tick_values_ticks INTERVAL_def del: upt_Suc)
  qed
  then show ?thesis
    using undelivered(1) st pl cy by blast
qed

theorem all_failed_cycle_witness:
  "list_all post_raised (events_since init_state (cycle always_timeout init_state)) \<and>
   not_stopped_before always_timeout
     (checks (snd (send_with_retries always_timeout [1..<MAX_RETRIES + 1] init_state)) + INTERVAL) \<and>
   statuses (events_since init_state (cycle always_timeout init_state)) =
     errors_of (events_since init_state (cycle always_timeout init_state)) @ [MsgAllFailed] \<and>
   tick_values (events_since init_state (cycle always_timeout init_state)) = rev [1..<301]"
proof -
  have "list_all quiet (failed 1 ''timeout'' @ waits 2 @ failed 2 ''timeout'' @ waits 4 @
        failed 3 ''timeout'' @ waits 8)"
    using pause_events [OF list_all_waits] by simp
  then have h: "list_all post_raised (events_since init_state (cycle always_timeout init_state))"
    unfolding cycle_always_timeout
    using counting_events [OF list_all_ticks [of 300]] quiet_post_raised
    by simp
  have n: "not_stopped_before always_timeout
     (checks (snd (send_with_retries always_timeout [1..<MAX_RETRIES + 1] init_state)) + INTERVAL)"
    by (simp add: always_timeout_def not_stopped_before_def)
  from all_failed_cycle [OF h] h n show ?thesis
    by blast
qed

section \<open>Cancellation\<close>

text \<open>
  C6. Once the stop event is set, wherever in the run the worker first sees it (in
  particular in a backoff or an interval wait), the worker leaves its loop: the run
  returns, it has emitted \<open>Finished\<close> exactly once, as its last event, and no
  countdown tick is emitted after the first check that answered \<open>True\<close>.
\<close>

theorem cancelled_run_finishes_once:
  assumes "stop_at e = Some k"
  shows "\<exists>s. run e init_state = Some s \<and> count_list (trace s) Finished = 1 \<and>
           last (trace s) = Finished \<and> IsSet True \<in> set (trace s) \<and>
           no_tick_after_stop (trace s)"
proof -
  from run_loop_terminates [OF assms stop_inv_init]
  obtain s' where r: "run_loop e init_state = Some s'" and i: "stop_inv k s'"
    and t: "IsSet True \<in> set (trace s')"
    by blast
  have "run e init_state = Some (emit Finished s')"
    using r by (simp add: run_def)
  moreover have "count_list (trace (emit Finished s')) Finished = 1"
    using i by (simp add: stop_inv_def emit_def)
  moreover have "no_tick_after_stop (trace (emit Finished s'))"
    using i by (simp add: stop_inv_def emit_def no_tick_after_stop_snoc)
  ultimately show ?thesis
    using t by (simp add: emit_def)
qed

theorem cancelled_run_finishes_once_witness:
  "stop_at retry_then_pong = Some 5 \<and>
   (\<exists>s. run retry_then_pong init_state = Some s \<and> count_list (trace s) Finished = 1 \<and>
        last (trace s) = Finished \<and> IsSet True \<in> set (trace s) \<and>
        no_tick_after_stop (trace s))"
  using cancelled_run_finishes_once [of retry_then_pong 5]
  by (simp add: retry_then_pong_def)

text \<open>
  C10. If the stop event is first seen during the delivery phase of a cycle, before any
  attempt was answered (also at the check before the first attempt), then the cycle is
  not marked as succeeded and the worker still emits the total-failure status, the one
  of the path where all retries failed; then the countdown is skipped (its first check
  answers \<open>True\<close>), the outer loop ends and \<open>Finished\<close> is emitted.
\<close>

theorem cancelled_delivery_reports_failure:
  assumes "stop_at e = Some k"
    and "checks s \<le> k"
    and "k < checks (snd (send_with_retries e [1..<MAX_RETRIES + 1] s))"
  shows "\<not> fst (send_with_retries e [1..<MAX_RETRIES + 1] s) \<and>
         cycle e s =
           advance 1 0 [Status MsgAllFailed, IsSet True]
             (snd (send_with_retries e [1..<MAX_RETRIES + 1] s)) \<and>
         run e (cycle e s) =
           Some (advance 2 0 [Status MsgAllFailed, IsSet True, IsSet True, Finished]
             (snd (send_with_retries e [1..<MAX_RETRIES + 1] s)))"
proof -
  define r where "r = send_with_retries e [1..<MAX_RETRIES + 1] s"
  have f: "\<not> fst r"
    unfolding r_def using send_with_retries_observed [OF assms] .
  have k: "k \<le> checks (emit (Status MsgAllFailed) (snd r))"
    using assms(3) by (simp add: r_def emit_def)
  have cy: "cycle e s = advance 1 0 [Status MsgAllFailed, IsSet True] (snd r)"
    using f countdown_stopped [OF assms(1) k, of INTERVAL]
    by (simp only: cycle_fst_snd r_def [symmetric])
       (simp add: INTERVAL_def emit_advance advance_advance)
  have "k \<le> checks (cycle e s)"
    unfolding cy using assms(3) by (simp add: r_def)
  from run_loop_stopped [OF assms(1) this]
  have "run e (cycle e s) =
      Some (advance 2 0 [Status MsgAllFailed, IsSet True, IsSet True, Finished] (snd r))"
    unfolding cy by (simp add: run_def emit_after_advance advance_advance)
  with f cy show ?thesis
    unfolding r_def by simp
qed

theorem cancelled_delivery_reports_failure_witness:
  "stop_at stop_before_first_attempt = Some 1 \<and>
   checks (advance 1 0 [IsSet False] init_state) \<le> 1 \<and>
   1 < checks (snd (send_with_retries stop_before_first_attempt [1..<MAX_RETRIES + 1]
                      (advance 1 0 [IsSet False] init_state))) \<and>
   run stop_before_first_attempt (cycle stop_before_first_attempt (advance 1 0 [IsSet False] init_state)) =
     Some (advance 2 0 [Status MsgAllFailed, IsSet True, IsSet True, Finished]
            (snd (send_with_retries stop_before_first_attempt [1..<MAX_RETRIES + 1]
                      (advance 1 0 [IsSet False] init_state))))"
proof -
  have a: "stop_at stop_before_first_attempt = Some 1"
    by (simp add: stop_before_first_attempt_def)
  have b: "checks (advance 1 0 [IsSet False] init_state) \<le> 1"
    by (simp add: init_state_def)
  have l: "[1..<MAX_RETRIES + 1] = 1 # [2, 3]"
    by (simp add: MAX_RETRIES_def upt_rec)
  have c: "1 < checks (snd (send_with_retries stop_before_first_attempt [1..<MAX_RETRIES + 1]
                      (advance 1 0 [IsSet False] init_state)))"
    unfolding l by (simp add: send_with_retries_stopped [OF a] init_state_def)
  from cancelled_delivery_reports_failure [OF a b c] a b c show ?thesis
    by blast
qed

section \<open>Single instance\<close>

text \<open>
  C8. \<open>on_start\<close> constructs and starts a worker if and only if the stripped
  identifier is not empty and the window holds no worker; when it starts none, it only
  sets the status label, to one of its two messages; the worker it starts is the one the
  window then holds. In every state that a sequence of events reaches from the initial
  application, at most one worker thread exists, and one exists exactly when the window
  holds a worker: a second engine is never created while one is live.
\<close>

theorem start_creates_at_most_one_engine:
  "(fst (on_start w) \<noteq> None \<longleftrightarrow> strip (identifier_edit w) \<noteq> [] \<and> worker w = None) \<and>
   (fst (on_start w) = None \<longrightarrow>
      snd (on_start w) = w\<lparr>status_label := status_label (snd (on_start w))\<rparr> \<and>
      status_label (snd (on_start w)) \<in> {LblNoIdentifier, LblAlreadyRunning}) \<and>
   (\<forall>pw. fst (on_start w) = Some pw \<longrightarrow>
      worker (snd (on_start w)) = Some pw \<and> worker_identifier pw = strip (identifier_edit w)) \<and>
   (handle_all init_app evs = Some a \<longrightarrow>
      threads a \<le> 1 \<and> (threads a = 0 \<longleftrightarrow> worker (window a) = None))"
proof -
  have "single_instance init_app"
    by (simp add: single_instance_def init_app_def init_window_def)
  then have "handle_all init_app evs = Some a \<Longrightarrow> single_instance a"
    by (rule handle_all_single_instance)
  then show ?thesis
    by (auto simp: on_start_cases single_instance_def)
qed


theorem start_creates_at_most_one_engine_witness:
  "fst (on_start init_window) = None \<and>
   status_label (snd (on_start init_window)) \<in> {LblNoIdentifier, LblAlreadyRunning} \<and>
   fst (on_start typed_window) = Some \<lparr>worker_identifier = ''worker-1'', stop_event = False\<rparr> \<and>
   worker (snd (on_start typed_window)) =
     Some \<lparr>worker_identifier = ''worker-1'', stop_event = False\<rparr> \<and>
   handle_all init_app session = Some session_end \<and>
   threads session_end \<le> 1"
  using start_creates_at_most_one_engine [of init_window session session_end]
    start_creates_at_most_one_engine [of typed_window session session_end]
    on_start_init_window on_start_typed_window handle_all_session
  by simp

end
